theory Spec2Isabelle
  imports Main "HOL-Library.Sublist" "HOL-Library.AList" "HOL-Library.Multiset"
begin

section \<open>Texts and objects\<close>

text \<open>
  A JavaScript string is modelled by the bytes of its UTF-8 encoding, one \<^typ>\<open>char\<close> per
  byte. Every character test of the modelled source (\<open>\w\<close>, \<open>\s\<close>, \<open>.\<close>, the
  delimiters, \<open>trim\<close>, \<open>toLowerCase\<close> on a \<open>\w+\<close> match) looks at ASCII
  characters only, so it acts on the bytes as it acts on the code units. The white space and
  line terminators outside ASCII (U+00A0, U+1680, U+2000 to U+200A, U+2028, U+2029, U+202F,
  U+205F, U+3000, U+FEFF) are not recognised: texts containing them are outside the model.
\<close>

definition isLineTerminator :: "char \<Rightarrow> bool" where
  "isLineTerminator c = (c \<in> set [CHR 0x0A, CHR 0x0D])"

definition isSpace :: "char \<Rightarrow> bool" where
  \<comment> \<open>\<open>\s\<close>, and the characters \<open>trim\<close> strips: tab, LF, VT, FF, CR, space.\<close>
  "isSpace c = (c \<in> set [CHR 0x09, CHR 0x0A, CHR 0x0B, CHR 0x0C, CHR 0x0D, CHR 0x20])"

definition isWord :: "char \<Rightarrow> bool" where
  \<comment> \<open>\<open>\w\<close>\<close>
  "isWord c = (c \<in> set ''abcdefghijklmnopqrstuvwxyzABCDEFGHIJKLMNOPQRSTUVWXYZ0123456789_'')"

definition isDot :: "char \<Rightarrow> bool" where
  \<comment> \<open>\<open>.\<close> without the \<open>s\<close> flag\<close>
  "isDot c = (\<not> isLineTerminator c)"

definition lowerChar :: "char \<Rightarrow> char" where
  "lowerChar c =
     (case map_of (zip ''ABCDEFGHIJKLMNOPQRSTUVWXYZ'' ''abcdefghijklmnopqrstuvwxyz'') c of
        Some d \<Rightarrow> d
      | None \<Rightarrow> c)"

definition toLowerCase :: "string \<Rightarrow> string" where
  "toLowerCase s = map lowerChar s"

definition trim :: "string \<Rightarrow> string" where
  "trim s = rev (dropWhile isSpace (rev (dropWhile isSpace s)))"

text \<open>
  An object with string-valued properties is an association list in insertion order.
  \<open>obj[k] = v\<close> replaces the value of an existing key in place and appends a new key; on
  an ordinary object the key \<open>__proto__\<close> is the inherited accessor, whose setter ignores a
  string, so the assignment stores nothing. Reading \<open>obj.k\<close> for a key that is not there
  gives \<open>undefined\<close>, here \<^const>\<open>None\<close>; the keys read by name in the modelled code
  (\<open>type\<close>, \<open>citeKey\<close>, \<open>year\<close>, \<open>title\<close> and the like) are not inherited ones.
  JavaScript enumerates keys that look like array indices before the others; nothing modelled
  here depends on the order of enumeration.
\<close>

type_synonym obj = "(string \<times> string) list"

definition getProp :: "obj \<Rightarrow> string \<Rightarrow> string option" where
  "getProp ob k = map_of ob k"

definition setProp :: "obj \<Rightarrow> string \<Rightarrow> string \<Rightarrow> obj" where
  "setProp ob k v = (if k = ''__proto__'' then ob else AList.update k v ob)"

definition spread :: "obj \<Rightarrow> obj \<Rightarrow> obj" where
  \<comment> \<open>\<open>{...ob, ...fields}\<close>: the own properties of \<open>fields\<close> are defined on \<open>ob\<close>, later ones winning.\<close>
  "spread ob fields = foldl (\<lambda>acc kv. AList.update (fst kv) (snd kv) acc) ob fields"

definition truthy :: "string option \<Rightarrow> bool" where
  \<comment> \<open>a property value used as a condition: \<open>undefined\<close> and the empty string are falsy\<close>
  "truthy v = (case v of None \<Rightarrow> False | Some s \<Rightarrow> s \<noteq> [])"

datatype jserror = TypeError

section \<open>Regular expressions\<close>

text \<open>
  The regular expressions of the source are values of \<open>regex\<close>. A matcher state is the text
  still to be read and the captures made so far. \<open>matches r x\<close> lists every way \<open>r\<close> can match
  at \<open>x\<close>, in the order in which the backtracking matcher of ECMAScript tries them, so the
  head of the list is the match it returns. None of the expressions looks behind the
  current position, so a match at a position depends on the text from there on only.
\<close>

type_synonym caps = "(nat \<times> string) list"
type_synonym mstate = "string \<times> caps"

datatype regex =
    Chr char
  | Cls "char \<Rightarrow> bool"
  | Seq regex regex
  | Alt regex regex
  | Star regex
  | LazyStar regex
  | Plus regex
  | Group nat regex
  | Look regex
  | EndInput
  | EndLine

text \<open>
  \<open>r*\<close> (greedy) and \<open>r*?\<close> (lazy). An iteration that consumed nothing is rejected, as
  ECMAScript's RepeatMatcher does; the test is written as "the rest got shorter", which is
  the same for matchers that only move forward.
\<close>

function star :: "(mstate \<Rightarrow> mstate list) \<Rightarrow> bool \<Rightarrow> mstate \<Rightarrow> mstate list" where
  "star f greedy x =
     (if greedy
      then concat (map (\<lambda>y. if length (fst y) < length (fst x) then star f greedy y else []) (f x)) @ [x]
      else x # concat (map (\<lambda>y. if length (fst y) < length (fst x) then star f greedy y else []) (f x)))"
  by pat_completeness auto
termination
  by (relation "measure (\<lambda>(f, g, x). length (fst x))") auto

declare star.simps [simp del]

primrec matches :: "regex \<Rightarrow> mstate \<Rightarrow> mstate list" where
  "matches (Chr c) x = (case fst x of [] \<Rightarrow> [] | d # ds \<Rightarrow> if d = c then [(ds, snd x)] else [])"
| "matches (Cls p) x = (case fst x of [] \<Rightarrow> [] | d # ds \<Rightarrow> if p d then [(ds, snd x)] else [])"
| "matches (Seq r1 r2) x = concat (map (matches r2) (matches r1 x))"
| "matches (Alt r1 r2) x = matches r1 x @ matches r2 x"
| "matches (Star r) x = star (matches r) True x"
| "matches (LazyStar r) x = star (matches r) False x"
| "matches (Plus r) x = concat (map (star (matches r) True) (matches r x))"
| "matches (Group n r) x =
     map (\<lambda>y. (fst y, (n, take (length (fst x) - length (fst y)) (fst x)) # snd y)) (matches r x)"
| "matches (Look r) x = (case matches r x of [] \<Rightarrow> [] | y # ys \<Rightarrow> [(fst x, snd y)])"
| "matches EndInput x = (if fst x = [] then [x] else [])"
| "matches EndLine x = (case fst x of [] \<Rightarrow> [x] | d # ds \<Rightarrow> if isLineTerminator d then [x] else [])"

definition group :: "caps \<Rightarrow> nat \<Rightarrow> string option" where
  \<comment> \<open>\<open>match[n]\<close>; the newest capture of a group is the first in the list\<close>
  "group m n = map_of m n"

text \<open>
  \<open>regex.exec(text)\<close> of a global expression, on the text from \<open>lastIndex\<close> on: the match at
  the first position that has one, as the text after it (where \<open>lastIndex\<close> then points)
  and the captures; \<^const>\<open>None\<close> is \<open>null\<close>.
\<close>

fun exec :: "regex \<Rightarrow> string \<Rightarrow> mstate option" where
  "exec r [] = (case matches r ([], []) of [] \<Rightarrow> None | y # ys \<Rightarrow> Some y)"
| "exec r (c # cs) = (case matches r (c # cs, []) of [] \<Rightarrow> exec r cs | y # ys \<Rightarrow> Some y)"

text \<open>
  \<open>text.replace(regex, rep)\<close> for a global expression and a replacement without \<open>$\<close>: from
  the left, the match at the first position that has one is replaced and the scan goes on
  after it; after an empty match the scan advances by one character, which is kept.
\<close>

function replaceAll :: "regex \<Rightarrow> string \<Rightarrow> string \<Rightarrow> string" where
  "replaceAll r rep s =
     (case matches r (s, []) of
        y # ys \<Rightarrow>
          if length (fst y) < length s then rep @ replaceAll r rep (fst y)
          else (case s of [] \<Rightarrow> rep | c # cs \<Rightarrow> rep @ c # replaceAll r rep cs)
      | [] \<Rightarrow> (case s of [] \<Rightarrow> [] | c # cs \<Rightarrow> c # replaceAll r rep cs))"
  by pat_completeness auto
termination
  by (relation "measure (\<lambda>(r, rep, s). length s)") auto

declare replaceAll.simps [simp del]

section \<open>The parser (js/bibtex-parser.js)\<close>

record parser =
  entries :: "obj list"
  errors :: "jserror list"

definition commentRegex :: regex where
  \<comment> \<open>\<open>/%.*$/gm\<close>\<close>
  "commentRegex = Seq (Chr CHR ''%'') (Seq (Star (Cls isDot)) EndLine)"

definition entryRegex :: regex where
  \<comment> \<open>\<open>/@(\w+)\s*{\s*([^,]*),\s*([\s\S]*?)(?=\s*@|\s*$)/g\<close>\<close>
  "entryRegex =
     Seq (Chr CHR ''@'') (Seq (Group 1 (Plus (Cls isWord))) (Seq (Star (Cls isSpace))
     (Seq (Chr CHR ''{'') (Seq (Star (Cls isSpace))
     (Seq (Group 2 (Star (Cls (\<lambda>c. c \<noteq> CHR '',''))))
     (Seq (Chr CHR '','') (Seq (Star (Cls isSpace)) (Seq (Group 3 (LazyStar (Cls (\<lambda>c. True))))
     (Look (Alt (Seq (Star (Cls isSpace)) (Chr CHR ''@''))
                (Seq (Star (Cls isSpace)) EndInput)))))))))))"

definition fieldRegex :: regex where
  \<comment> \<open>\<open>/(\w+)\s*=\s*[{"](.*?)[\"}]/g\<close>\<close>
  "fieldRegex =
     Seq (Group 1 (Plus (Cls isWord))) (Seq (Star (Cls isSpace)) (Seq (Chr CHR ''='')
     (Seq (Star (Cls isSpace)) (Seq (Cls (\<lambda>c. c \<in> set [CHR ''{'', CHR 0x22]))
     (Seq (Group 2 (LazyStar (Cls isDot))) (Cls (\<lambda>c. c \<in> set [CHR 0x22, CHR ''}''])))))))"

definition acceptedTypes :: "string list" where
  "acceptedTypes = [''article'', ''inproceedings'', ''conference'', ''book'', ''techreport'',
     ''phdthesis'', ''mastersthesis'', ''misc'']"

text \<open>
  The \<open>while\<close> loop of \<open>parseFields\<close>. The result is \<^const>\<open>None\<close> when the loop never
  ends (a match that does not move \<open>lastIndex\<close> is found again for ever), \<open>Some (Inl e)\<close>
  when it throws, \<open>Some (Inr fields)\<close> when it returns.
\<close>

function fieldLoop :: "string \<Rightarrow> obj \<Rightarrow> (jserror + obj) option" where
  "fieldLoop s flds =
     (case exec fieldRegex s of
        None \<Rightarrow> Some (Inr flds)
      | Some y \<Rightarrow>
          if length (fst y) < length s
          then (case group (snd y) 1 of
                  None \<Rightarrow> Some (Inl TypeError)
                | Some fieldName \<Rightarrow>
                   (case group (snd y) 2 of
                      None \<Rightarrow> Some (Inl TypeError)
                    | Some fieldValue \<Rightarrow>
                        fieldLoop (fst y) (setProp flds (toLowerCase fieldName) (trim fieldValue))))
          else None)"
  by pat_completeness auto
termination
  by (relation "measure (\<lambda>(s, flds). length s)") auto

declare fieldLoop.simps [simp del]

definition parseFields :: "string \<Rightarrow> (jserror + obj) option" where
  "parseFields content = fieldLoop content []"

text \<open>The body of the \<open>try\<close> block for one match of \<open>entryRegex\<close>.\<close>

definition tryBlock :: "caps \<Rightarrow> parser \<Rightarrow> (jserror + parser) option" where
  "tryBlock m p =
     (case group m 1 of
        None \<Rightarrow> Some (Inl TypeError)
      | Some g1 \<Rightarrow>
         (case group m 2 of
            None \<Rightarrow> Some (Inl TypeError)
          | Some g2 \<Rightarrow>
             (case group m 3 of
                None \<Rightarrow> Some (Inl TypeError)
              | Some g3 \<Rightarrow>
                  if toLowerCase g1 \<in> set acceptedTypes
                  then (case parseFields (trim g3) of
                          None \<Rightarrow> None
                        | Some (Inl e) \<Rightarrow> Some (Inl e)
                        | Some (Inr flds) \<Rightarrow>
                            Some (Inr (p\<lparr>entries := entries p @
                              [spread [(''type'', toLowerCase g1), (''citeKey'', trim g2)] flds]\<rparr>)))
                  else Some (Inr p))))"

definition parseBlock :: "caps \<Rightarrow> parser \<Rightarrow> parser option" where
  \<comment> \<open>\<open>try { ... } catch (error) { this.errors.push(...) }\<close>; the pushed message is kept as its error\<close>
  "parseBlock m p =
     (case tryBlock m p of
        None \<Rightarrow> None
      | Some (Inl e) \<Rightarrow> Some (p\<lparr>errors := errors p @ [e]\<rparr>)
      | Some (Inr p') \<Rightarrow> Some p')"

function parseLoop :: "string \<Rightarrow> parser \<Rightarrow> parser option" where
  "parseLoop s p =
     (case exec entryRegex s of
        None \<Rightarrow> Some p
      | Some y \<Rightarrow>
          if length (fst y) < length s
          then (case parseBlock (snd y) p of None \<Rightarrow> None | Some p' \<Rightarrow> parseLoop (fst y) p')
          else None)"
  by pat_completeness auto
termination
  by (relation "measure (\<lambda>(s, p). length s)") auto

declare parseLoop.simps [simp del]

definition stripComments :: "string \<Rightarrow> string" where
  "stripComments bibtex = replaceAll commentRegex [] bibtex"

definition parse :: "parser \<Rightarrow> string \<Rightarrow> (obj list \<times> parser) option" where
  \<comment> \<open>the returned array and the parser after the call; \<^const>\<open>None\<close> when the call never returns\<close>
  "parse p bibtex =
     (case parseLoop (stripComments bibtex) \<lparr>entries = [], errors = []\<rparr> of
        None \<Rightarrow> None
      | Some p' \<Rightarrow> Some (entries p', p'))"












text \<open>
  \<open>typeMap[type]\<close> reads an ordinary object, so besides its three own keys it finds the
  properties inherited from \<open>Object.prototype\<close>: functions, and for \<open>__proto__\<close> the
  prototype object itself. All of these are truthy and none has a method \<open>includes\<close>.
\<close>

datatype typeMapValue = Own "string list" | Inherited | Undefined

definition objectPrototypeKeys :: "string list" where
  "objectPrototypeKeys = [''constructor'', ''hasOwnProperty'', ''isPrototypeOf'',
     ''propertyIsEnumerable'', ''toLocaleString'', ''toString'', ''valueOf'', ''__proto__'',
     ''__defineGetter__'', ''__defineSetter__'', ''__lookupGetter__'', ''__lookupSetter__'']"

definition typeMap :: "string \<Rightarrow> typeMapValue" where
  "typeMap type =
     (if type = ''journal'' then Own [''article'']
      else if type = ''conference'' then Own [''inproceedings'', ''conference'']
      else if type = ''preprint'' then Own [''misc'', ''unpublished'']
      else if type \<in> set objectPrototypeKeys then Inherited
      else Undefined)"

definition includes_arr :: "string list \<Rightarrow> string option \<Rightarrow> bool" where
  \<comment> \<open>\<open>types.includes(v)\<close> for an array of strings; \<open>undefined\<close> is not among them\<close>
  "includes_arr types v = (case v of None \<Rightarrow> False | Some t \<Rightarrow> t \<in> set types)"

definition filterByType :: "parser \<Rightarrow> string \<Rightarrow> (jserror + obj list) \<times> parser" where
  \<comment> \<open>what the call returns or throws, and the parser after it. The callback of \<open>filter\<close> throws
      at the first entry when \<open>types\<close> has no \<open>includes\<close>; on an empty array it is never called.\<close>
  "filterByType p type =
     (if type = ''all'' then (Inr (entries p), p)
      else (case typeMap type of
              Own types \<Rightarrow> (Inr (filter (\<lambda>entry. includes_arr types (getProp entry ''type'')) (entries p)), p)
            | Undefined \<Rightarrow> (Inr (filter (\<lambda>entry. includes_arr [type] (getProp entry ''type'')) (entries p)), p)
            | Inherited \<Rightarrow> (if entries p = [] then Inr [] else Inl TypeError, p)))"

section \<open>The publication renderer\<close>

text \<open>
  \<open>text.split(sep)\<close> and \<open>array.join(sep)\<close> on strings. With an empty separator \<open>split\<close>
  gives the characters one by one; otherwise it cuts at every occurrence of the separator,
  found from the left without overlap.
\<close>

fun splitAux :: "string \<Rightarrow> string \<Rightarrow> string \<Rightarrow> string list" where
  "splitAux sep cur [] = [rev cur]"
| "splitAux [] cur (c # cs) = splitAux [] (c # cur) cs"
| "splitAux (s # ss) cur (c # cs) =
     (if prefix (s # ss) (c # cs) then rev cur # splitAux (s # ss) [] (drop (length ss) cs)
      else splitAux (s # ss) (c # cur) cs)"

definition split :: "string \<Rightarrow> string \<Rightarrow> string list" where
  "split s sep = (if sep = [] then map (\<lambda>c. [c]) s else splitAux sep [] s)"

fun join :: "string \<Rightarrow> string list \<Rightarrow> string" where
  "join sep [] = []"
| "join sep [x] = x"
| "join sep (x # y # ys) = x @ sep @ join sep (y # ys)"

text \<open>
  The external data the renderer reads. \<open>coauthorsData\<close> is \<open>null\<close> before it is loaded
  (\<^const>\<open>None\<close>), then a table from author name to an object with optional \<open>website\<close> and
  \<open>affiliation\<close>. A publication's configuration has optional lists of co-first and of
  corresponding authors.
\<close>

record coauthor =
  website :: "string option"
  affiliation :: "string option"

type_synonym coauthorsData = "(string \<Rightarrow> coauthor option) option"

record pubConfig =
  co_first_authors :: "string list option"
  corresponding_authors :: "string list option"

definition orEmpty :: "string option \<Rightarrow> string" where
  \<comment> \<open>\<open>v || ''\<close>\<close>
  "orEmpty v = (case v of None \<Rightarrow> [] | Some s \<Rightarrow> s)"

definition orNoNames :: "string list option \<Rightarrow> string list" where
  \<comment> \<open>\<open>v || []\<close>\<close>
  "orNoNames v = (case v of None \<Rightarrow> [] | Some names \<Rightarrow> names)"


definition envelope :: string where
  \<comment> \<open>U+2709, the envelope sign of the corresponding-author marker, in UTF-8\<close>
  "envelope = [CHR 0xE2, CHR 0x9C, CHR 0x89]"

definition coauthorInfoOf :: "coauthorsData \<Rightarrow> string \<Rightarrow> coauthor option" where
  \<comment> \<open>\<open>coauthorsData?.coauthors?.[name]\<close>. For a name that only hits an inherited property the
      source gets an object without \<open>website\<close>, which it treats as it treats \<open>undefined\<close>.\<close>
  "coauthorInfoOf cd name = (case cd of None \<Rightarrow> None | Some coauthors \<Rightarrow> coauthors name)"

definition formatAuthor :: "coauthorsData \<Rightarrow> pubConfig \<Rightarrow> string \<Rightarrow> string" where
  \<comment> \<open>the callback of \<open>authorList.map\<close>, its assignments to \<open>formattedAuthor\<close> in order\<close>
  "formatAuthor cd pubConfig author =
     (let trimmedAuthor = trim author;
          coauthorInfo = coauthorInfoOf cd trimmedAuthor;
          formatted0 = (if trimmedAuthor = ''Chaofeng Chen''
                        then ''<strong>'' @ trimmedAuthor @ ''</strong>'' else trimmedAuthor);
          formatted1 = (if trimmedAuthor \<in> set (orNoNames (co_first_authors pubConfig))
                        then formatted0 @ ''<sup>*</sup>'' else formatted0);
          formatted2 = (if trimmedAuthor \<in> set (orNoNames (corresponding_authors pubConfig))
                        then formatted1 @ ''<sup>'' @ envelope @ ''</sup>'' else formatted1)
      in case coauthorInfo of
           None \<Rightarrow> formatted2
         | Some info \<Rightarrow>
             if truthy (website info)
             then ''<a href='' @ [CHR 0x22] @ orEmpty (website info) @ [CHR 0x22] @ '' target='' @
                  [CHR 0x22] @ ''_blank'' @ [CHR 0x22] @ '' title='' @ [CHR 0x22] @
                  orEmpty (affiliation info) @ [CHR 0x22] @ ''>'' @ formatted2 @ ''</a>''
             else formatted2)"

definition formatAuthorsWithLinks :: "coauthorsData \<Rightarrow> string \<Rightarrow> pubConfig \<Rightarrow> string" where
  "formatAuthorsWithLinks cd authors pubConfig =
     join '', '' (map (formatAuthor cd pubConfig) (split authors '' and ''))"





text \<open>
  The citation text that \<open>showBibtex\<close> builds from a publication (its \<open>bibtexText\<close>), line by
  line as in the template.
\<close>

definition NL :: string where
  "NL = [CHR 0x0A]"




text \<open>
  The blocks of a text are the successive matches of \<open>entryRegex\<close> on the text without its
  comments, as the loop of \<open>parse\<close> meets them: each match is searched from the end of the
  one before.
\<close>

function matchAll :: "regex \<Rightarrow> string \<Rightarrow> caps list" where
  "matchAll r s =
     (case exec r s of
        None \<Rightarrow> []
      | Some y \<Rightarrow> if length (fst y) < length s then snd y # matchAll r (fst y) else [])"
  by pat_completeness auto
termination
  by (relation "measure (\<lambda>(r, s). length s)") auto

declare matchAll.simps [simp del]

definition blocks :: "string \<Rightarrow> caps list" where
  "blocks bibtex = matchAll entryRegex (stripComments bibtex)"

definition blockType :: "caps \<Rightarrow> string option" where
  \<comment> \<open>the lower-cased type of a block\<close>
  "blockType b = map_option toLowerCase (group b 1)"

definition blockKey :: "caps \<Rightarrow> string option" where
  "blockKey b = map_option trim (group b 2)"

definition acceptedBlock :: "caps \<Rightarrow> bool" where
  "acceptedBlock b = (case blockType b of None \<Rightarrow> False | Some t \<Rightarrow> t \<in> set acceptedTypes)"

definition blockEntry :: "caps \<Rightarrow> obj option" where
  \<comment> \<open>the entry that the \<open>try\<close> block pushes for a block, if it pushes one\<close>
  "blockEntry b =
     (case tryBlock b \<lparr>entries = [], errors = []\<rparr> of
        Some (Inr p) \<Rightarrow> (case entries p of [e] \<Rightarrow> Some e | _ \<Rightarrow> None)
      | _ \<Rightarrow> None)"

text \<open>
  Comment stripping in the words of the specification: every \<open>%\<close> and all that follows it up
  to the end of its line is removed. The flag says whether the scan is inside a comment; a line
  terminator ends the comment and is kept.
\<close>

fun stripComments_spec :: "bool \<Rightarrow> string \<Rightarrow> string" where
  "stripComments_spec inComment [] = []"
| "stripComments_spec inComment (c # cs) =
     (if isLineTerminator c then c # stripComments_spec False cs
      else if inComment \<or> c = CHR ''%'' then stripComments_spec True cs
      else c # stripComments_spec False cs)"

subsection \<open>What a match consumes and captures\<close>

text \<open>
  Two syntactic facts about an expression: the groups that every match of it captures, and
  whether every match of it consumes at least one character.
\<close>

primrec sets :: "regex \<Rightarrow> nat set" where
  "sets (Chr c) = {}"
| "sets (Cls p) = {}"
| "sets (Seq r1 r2) = sets r1 \<union> sets r2"
| "sets (Alt r1 r2) = sets r1 \<inter> sets r2"
| "sets (Star r) = {}"
| "sets (LazyStar r) = {}"
| "sets (Plus r) = sets r"
| "sets (Group n r) = insert n (sets r)"
| "sets (Look r) = sets r"
| "sets EndInput = {}"
| "sets EndLine = {}"

primrec consumes :: "regex \<Rightarrow> bool" where
  "consumes (Chr c) = True"
| "consumes (Cls p) = True"
| "consumes (Seq r1 r2) = (consumes r1 \<or> consumes r2)"
| "consumes (Alt r1 r2) = (consumes r1 \<and> consumes r2)"
| "consumes (Star r) = False"
| "consumes (LazyStar r) = False"
| "consumes (Plus r) = consumes r"
| "consumes (Group n r) = consumes r"
| "consumes (Look r) = False"
| "consumes EndInput = False"
| "consumes EndLine = False"

definition step :: "bool \<Rightarrow> nat set \<Rightarrow> mstate \<Rightarrow> mstate \<Rightarrow> bool" where
  \<comment> \<open>from \<open>x\<close> to \<open>y\<close> the rest did not grow (it shrank if \<open>b\<close>), the captures of \<open>x\<close> are kept and the groups \<open>G\<close> are captured\<close>
  "step b G x y =
     (length (fst y) + (if b then 1 else 0) \<le> length (fst x) \<and>
      fst ` set (snd x) \<union> G \<subseteq> fst ` set (snd y))"

section \<open>Properties\<close>

subsection \<open>A first scenario\<close>

lemma parse_scenario:
  "parse p ''@article{a2020x, title={T}, author={A and B}, year={2020}}'' =
     Some ([[(''type'', ''article''), (''citeKey'', ''a2020x''), (''title'', ''T''),
             (''author'', ''A and B''), (''year'', ''2020'')]],
           \<lparr>entries = [[(''type'', ''article''), (''citeKey'', ''a2020x''), (''title'', ''T''),
             (''author'', ''A and B''), (''year'', ''2020'')]], errors = []\<rparr>)"
  by code_simp

text \<open>
  A field named \<open>type\<close> overwrites the type of the block in the entry, since the fields are
  spread last; a field named \<open>__proto__\<close> is lost.
\<close>

lemma parse_type_field:
  "parse p ''@misc{k, type={thesis}, __proto__={x}, note={n}}'' =
     Some ([[(''type'', ''thesis''), (''citeKey'', ''k''), (''note'', ''n'')]],
           \<lparr>entries = [[(''type'', ''thesis''), (''citeKey'', ''k''), (''note'', ''n'')]], errors = []\<rparr>)"
  by code_simp

subsection \<open>Matches move forward and capture their groups\<close>

lemma step_refl: "step False {} x x"
  by (simp add: step_def)

lemma step_trans: "step b G x y \<Longrightarrow> step b' G' y z \<Longrightarrow> step (b \<or> b') (G \<union> G') x z"
  unfolding step_def
proof (intro conjI)
  assume 1: "length (fst y) + (if b then 1 else 0) \<le> length (fst x) \<and> fst ` set (snd x) \<union> G \<subseteq> fst ` set (snd y)"
    and 2: "length (fst z) + (if b' then 1 else 0) \<le> length (fst y) \<and> fst ` set (snd y) \<union> G' \<subseteq> fst ` set (snd z)"
  from 1 2 show "length (fst z) + (if b \<or> b' then 1 else 0) \<le> length (fst x)"
    by (simp split: if_splits)
  from 1 2 show "fst ` set (snd x) \<union> (G \<union> G') \<subseteq> fst ` set (snd z)"
    by blast
qed

lemma step_weaken: "step b G x y \<Longrightarrow> (b' \<longrightarrow> b) \<Longrightarrow> G' \<subseteq> G \<Longrightarrow> step b' G' x y"
  by (auto simp: step_def)

lemma star_step:
  "(\<And>x y. y \<in> set (f x) \<Longrightarrow> step False {} x y) \<Longrightarrow> y \<in> set (star f g x) \<Longrightarrow> step False {} x y"
proof (induction f g x rule: star.induct)
  case (1 f g x)
  from "1.prems"(2)
  have "y = x \<or> (\<exists>z \<in> set (f x). length (fst z) < length (fst x) \<and> y \<in> set (star f g z))"
    by (subst (asm) star.simps) (auto split: if_splits)
  then show ?case
  proof
    assume "y = x" then show ?thesis by (simp add: step_refl)
  next
    assume "\<exists>z \<in> set (f x). length (fst z) < length (fst x) \<and> y \<in> set (star f g z)"
    then obtain z where z: "z \<in> set (f x)" "length (fst z) < length (fst x)" "y \<in> set (star f g z)"
      by blast
    have "step False {} z y"
    proof (cases g)
      case True
      with "1.IH"(1) [OF _ z(1,2)] "1.prems"(1) z(3) show ?thesis by simp
    next
      case False
      with "1.IH"(2) [OF _ z(1,2)] "1.prems"(1) z(3) show ?thesis by simp
    qed
    with "1.prems"(1) [OF z(1)] show ?thesis using step_trans [of False "{}" x z False "{}" y] by simp
  qed
qed

lemma matches_step: "y \<in> set (matches r x) \<Longrightarrow> step (consumes r) (sets r) x y"
proof (induction r arbitrary: x y)
  case (Chr c)
  then show ?case by (cases x) (auto simp: step_def split: list.splits if_splits)
next
  case (Cls p)
  then show ?case by (cases x) (auto simp: step_def split: list.splits if_splits)
next
  case (Seq r1 r2)
  then obtain z where "z \<in> set (matches r1 x)" "y \<in> set (matches r2 z)" by auto
  then have "step (consumes r1) (sets r1) x z" "step (consumes r2) (sets r2) z y"
    using Seq.IH by blast+
  then show ?case using step_trans [of "consumes r1" "sets r1" x z "consumes r2" "sets r2" y] by simp
next
  case (Alt r1 r2)
  from Alt.prems have "y \<in> set (matches r1 x) \<or> y \<in> set (matches r2 x)" by simp
  then show ?case
  proof
    assume "y \<in> set (matches r1 x)"
    from Alt.IH(1) [OF this] show ?thesis by (rule step_weaken) simp_all
  next
    assume "y \<in> set (matches r2 x)"
    from Alt.IH(2) [OF this] show ?thesis by (rule step_weaken) simp_all
  qed
next
  case (Star r)
  have "\<And>x y. y \<in> set (matches r x) \<Longrightarrow> step False {} x y"
    using Star.IH by (blast intro: step_weaken)
  from star_step [of "matches r", OF this] Star.prems show ?case by simp
next
  case (LazyStar r)
  have "\<And>x y. y \<in> set (matches r x) \<Longrightarrow> step False {} x y"
    using LazyStar.IH by (blast intro: step_weaken)
  from star_step [of "matches r", OF this] LazyStar.prems show ?case by simp
next
  case (Plus r)
  then obtain z where z: "z \<in> set (matches r x)" "y \<in> set (star (matches r) True z)" by auto
  have "\<And>x y. y \<in> set (matches r x) \<Longrightarrow> step False {} x y"
    using Plus.IH by (blast intro: step_weaken)
  from star_step [of "matches r", OF this] z(2) have "step False {} z y" by simp
  with Plus.IH [OF z(1)] show ?case using step_trans [of "consumes r" "sets r" x z False "{}" y] by simp
next
  case (Group n r)
  then obtain z where z: "z \<in> set (matches r x)"
    "y = (fst z, (n, take (length (fst x) - length (fst z)) (fst x)) # snd z)" by auto
  from Group.IH [OF z(1)] z(2) show ?case by (auto simp: step_def)
next
  case (Look r)
  from Look.prems obtain z zs where z: "matches r x = z # zs" "y = (fst x, snd z)"
    by (cases "matches r x") auto
  then have "z \<in> set (matches r x)" by simp
  from Look.IH [OF this] z(2) show ?case by (auto simp: step_def)
next
  case EndInput
  then show ?case by (auto simp: step_def split: if_splits)
next
  case EndLine
  then show ?case by (auto simp: step_def split: list.splits if_splits)
qed

lemma exec_step:
  "exec r s = Some y \<Longrightarrow> step (consumes r) (sets r) (s, []) y"
proof (induction s)
  case Nil
  then have "y \<in> set (matches r ([], []))" by (auto split: list.splits)
  then show ?case by (rule matches_step)
next
  case (Cons c cs)
  show ?case
  proof (cases "matches r (c # cs, [])")
    case Nil
    with Cons have "step (consumes r) (sets r) (cs, []) y" by simp
    then show ?thesis by (auto simp: step_def)
  next
    case (Cons z zs)
    with Cons.prems have "y \<in> set (matches r (c # cs, []))" by simp
    then show ?thesis by (rule matches_step)
  qed
qed

lemma consumes_entryRegex: "consumes entryRegex" and sets_entryRegex: "sets entryRegex = {1, 2, 3}"
  by (auto simp: entryRegex_def)

lemma consumes_fieldRegex: "consumes fieldRegex" and sets_fieldRegex: "sets fieldRegex = {1, 2}"
  by (auto simp: fieldRegex_def)

lemma group_defined: "n \<in> fst ` set m \<Longrightarrow> \<exists>g. group m n = Some g"
  by (cases "map_of m n") (auto simp: group_def map_of_eq_None_iff)

lemma exec_fieldRegex:
  assumes "exec fieldRegex s = Some y"
  shows "length (fst y) < length s" "\<exists>g. group (snd y) 1 = Some g" "\<exists>g. group (snd y) 2 = Some g"
proof -
  have s: "step True {1, 2} (s, []) y"
    using exec_step [OF assms] by (simp add: consumes_fieldRegex sets_fieldRegex)
  from s show "length (fst y) < length s" by (simp add: step_def)
  from s have "1 \<in> fst ` set (snd y)" "2 \<in> fst ` set (snd y)" by (simp_all add: step_def)
  then show "\<exists>g. group (snd y) 1 = Some g" "\<exists>g. group (snd y) 2 = Some g"
    by (simp_all add: group_defined)
qed

lemma exec_entryRegex:
  assumes "exec entryRegex s = Some y"
  shows "length (fst y) < length s" "\<exists>g. group (snd y) 1 = Some g" "\<exists>g. group (snd y) 2 = Some g"
    "\<exists>g. group (snd y) 3 = Some g"
proof -
  have s: "step True {1, 2, 3} (s, []) y"
    using exec_step [OF assms] by (simp add: consumes_entryRegex sets_entryRegex)
  from s show "length (fst y) < length s" by (simp add: step_def)
  from s have "1 \<in> fst ` set (snd y)" "2 \<in> fst ` set (snd y)" "3 \<in> fst ` set (snd y)"
    by (simp_all add: step_def)
  then show "\<exists>g. group (snd y) 1 = Some g" "\<exists>g. group (snd y) 2 = Some g"
    "\<exists>g. group (snd y) 3 = Some g"
    by (simp_all add: group_defined)
qed


subsection \<open>The loops of the parser return\<close>

lemma fieldLoop_returns: "\<exists>flds'. fieldLoop s flds = Some (Inr flds')"
proof (induction s flds rule: fieldLoop.induct)
  case (1 s flds)
  show ?case
  proof (cases "exec fieldRegex s")
    case None
    then show ?thesis by (simp add: fieldLoop.simps [of s flds])
  next
    case (Some y)
    from exec_fieldRegex [OF Some] obtain g1 g2 where
      g: "length (fst y) < length s" "group (snd y) 1 = Some g1" "group (snd y) 2 = Some g2"
      by blast
    from "1.IH" [OF Some g] obtain flds' where
      "fieldLoop (fst y) (setProp flds (toLowerCase g1) (trim g2)) = Some (Inr flds')" by blast
    with Some g show ?thesis by (simp add: fieldLoop.simps [of s flds])
  qed
qed

lemma parseFields_returns: "\<exists>flds. parseFields content = Some (Inr flds)"
  by (simp add: parseFields_def fieldLoop_returns)

lemma tryBlock_returns:
  assumes "group m 1 = Some g1" "group m 2 = Some g2" "group m 3 = Some g3"
  shows "\<exists>flds. parseFields (trim g3) = Some (Inr flds) \<and>
     tryBlock m p = Some (Inr (if toLowerCase g1 \<in> set acceptedTypes
       then p\<lparr>entries := entries p @ [spread [(''type'', toLowerCase g1), (''citeKey'', trim g2)] flds]\<rparr>
       else p))"
proof -
  obtain flds where "parseFields (trim g3) = Some (Inr flds)"
    using parseFields_returns by blast
  with assms show ?thesis by (simp add: tryBlock_def)
qed

lemma parseBlock_entry:
  assumes "group m 1 = Some g1" "group m 2 = Some g2" "group m 3 = Some g3"
  shows "parseBlock m p =
     Some (p\<lparr>entries := entries p @ (case blockEntry m of None \<Rightarrow> [] | Some e \<Rightarrow> [e])\<rparr>) \<and>
     (blockEntry m = None) = (\<not> acceptedBlock m)"
proof -
  from tryBlock_returns [OF assms, of p] obtain flds where
    1: "tryBlock m p = Some (Inr (if toLowerCase g1 \<in> set acceptedTypes
       then p\<lparr>entries := entries p @ [spread [(''type'', toLowerCase g1), (''citeKey'', trim g2)] flds]\<rparr>
       else p))" and f: "parseFields (trim g3) = Some (Inr flds)"
    by blast
  from assms f have 2: "tryBlock m \<lparr>entries = [], errors = []\<rparr> = Some (Inr (if toLowerCase g1 \<in> set acceptedTypes
       then \<lparr>entries = [spread [(''type'', toLowerCase g1), (''citeKey'', trim g2)] flds], errors = []\<rparr>
       else \<lparr>entries = [], errors = []\<rparr>))"
    by (simp add: tryBlock_def)
  from assms have 3: "acceptedBlock m = (toLowerCase g1 \<in> set acceptedTypes)"
    by (simp add: acceptedBlock_def blockType_def)
  from 1 2 3 show ?thesis
    by (simp add: parseBlock_def blockEntry_def)
qed

lemma parseLoop_returns:
  "parseLoop s p =
     Some (p\<lparr>entries := entries p @ map the (map blockEntry (filter acceptedBlock (matchAll entryRegex s)))\<rparr>) \<and>
   list_all (\<lambda>b. blockEntry b \<noteq> None) (filter acceptedBlock (matchAll entryRegex s))"
proof (induction s p rule: parseLoop.induct)
  case (1 s p)
  show ?case
  proof (cases "exec entryRegex s")
    case None
    then have "matchAll entryRegex s = []" "parseLoop s p = Some p"
      by (simp_all add: matchAll.simps [of entryRegex s] parseLoop.simps [of s p])
    then show ?thesis by simp
  next
    case (Some y)
    from exec_entryRegex [OF Some] obtain g1 g2 g3 where
      l: "length (fst y) < length s" and
      g: "group (snd y) 1 = Some g1" "group (snd y) 2 = Some g2" "group (snd y) 3 = Some g3"
      by blast
    let ?p' = "p\<lparr>entries := entries p @ (case blockEntry (snd y) of None \<Rightarrow> [] | Some e \<Rightarrow> [e])\<rparr>"
    from parseBlock_entry [OF g, of p] have
      pb: "parseBlock (snd y) p = Some ?p'" and
      acc: "(blockEntry (snd y) = None) = (\<not> acceptedBlock (snd y))"
      by blast+
    note IH = "1.IH" [OF Some l pb]
    have m: "matchAll entryRegex s = snd y # matchAll entryRegex (fst y)"
      using Some l by (simp add: matchAll.simps [of entryRegex s])
    have pl: "parseLoop s p = parseLoop (fst y) ?p'"
      using Some l pb by (simp add: parseLoop.simps [of s p])
    show ?thesis
      using IH acc unfolding pl m by (cases "blockEntry (snd y)") auto
  qed
qed


lemma parse_returns:
  "parse p bibtex =
     Some (map the (map blockEntry (filter acceptedBlock (blocks bibtex))),
           \<lparr>entries = map the (map blockEntry (filter acceptedBlock (blocks bibtex))), errors = []\<rparr>) \<and>
   list_all (\<lambda>b. blockEntry b \<noteq> None) (filter acceptedBlock (blocks bibtex))"
  using parseLoop_returns [of "stripComments bibtex" "\<lparr>entries = [], errors = []\<rparr>"]
  by (simp add: parse_def blocks_def)

subsection \<open>Blocks of other types\<close>

lemma map_Some_the: "list_all (\<lambda>x. f x \<noteq> None) xs \<Longrightarrow> map Some (map the (map f xs)) = map f xs"
  by (induction xs) auto

text \<open>
  Claim C5. For every input text \<open>parse\<close> returns; the entries it returns and holds are
  exactly the entries of the blocks whose lower-cased type is in the accepted set, one for
  each such block and in their order, so a block of any other type does not appear; and the
  error list is empty, so no message is added for such a block.
\<close>

theorem parse_skips_other_types:
  "\<exists>es. parse p bibtex = Some (es, \<lparr>entries = es, errors = []\<rparr>) \<and>
        map Some es = map blockEntry (filter acceptedBlock (blocks bibtex))"
  using parse_returns [of p bibtex] by (simp add: map_Some_the del: map_map)

lemma parse_skips_example:
  "blocks ''@comment{c1, note={n}} @article{k1, title={T}}'' =
     [[(3, ''note={n}}''), (2, ''c1''), (1, ''comment'')], [(3, ''title={T}}''), (2, ''k1''), (1, ''article'')]] \<and>
   parse p ''@comment{c1, note={n}} @article{k1, title={T}}'' =
     Some ([[(''type'', ''article''), (''citeKey'', ''k1''), (''title'', ''T'')]],
           \<lparr>entries = [[(''type'', ''article''), (''citeKey'', ''k1''), (''title'', ''T'')]], errors = []\<rparr>)"
  by code_simp

subsection \<open>A text without blocks\<close>

text \<open>
  Claim C6. For every input text with no block, \<open>parse\<close> returns the empty sequence and leaves
  the parser with no entries and no errors, whatever entries and errors the parser held
  before the call.
\<close>

theorem parse_no_blocks:
  "blocks bibtex = [] \<Longrightarrow> parse p bibtex = Some ([], \<lparr>entries = [], errors = []\<rparr>)"
  using parse_returns [of p bibtex] by simp

theorem parse_no_blocks_witness:
  "blocks ''notes only % @article{k, title={T}}'' = [] \<and>
   parse \<lparr>entries = [[(''type'', ''misc''), (''citeKey'', ''old'')]], errors = [TypeError]\<rparr>
     ''notes only % @article{k, title={T}}'' = Some ([], \<lparr>entries = [], errors = []\<rparr>)"
proof -
  have h: "blocks ''notes only % @article{k, title={T}}'' = []" by code_simp
  from parse_no_blocks [OF h] h show ?thesis by simp
qed

subsection \<open>Mixed delimiters\<close>

text \<open>
  Claim C8. A field opened with a brace and closed with a quote, or opened with a quote and
  closed with a brace, is accepted and yields its value, as the two matched forms do.
\<close>

theorem parseFields_mixed_delimiters:
  "parseFields (''name = {value'' @ [CHR 0x22]) = Some (Inr [(''name'', ''value'')]) \<and>
   parseFields (''name = '' @ [CHR 0x22] @ ''value}'') = Some (Inr [(''name'', ''value'')]) \<and>
   parseFields ''name = {value}'' = Some (Inr [(''name'', ''value'')]) \<and>
   parseFields (''name = '' @ [CHR 0x22] @ ''value'' @ [CHR 0x22]) = Some (Inr [(''name'', ''value'')])"
  by code_simp

subsection \<open>Blocks with the same key\<close>

text \<open>
  Claim C3 as stated fails: of two blocks with the key \<open>k\<close> both are held, the first one
  with its own title.
\<close>

theorem parse_duplicate_keys_counterexample:
  "parse \<lparr>entries = [], errors = []\<rparr> ''@article{k, title={A}} @article{k, title={B}}'' =
     Some ([[(''type'', ''article''), (''citeKey'', ''k''), (''title'', ''A'')],
            [(''type'', ''article''), (''citeKey'', ''k''), (''title'', ''B'')]],
           \<lparr>entries = [[(''type'', ''article''), (''citeKey'', ''k''), (''title'', ''A'')],
                       [(''type'', ''article''), (''citeKey'', ''k''), (''title'', ''B'')]],
            errors = []\<rparr>)"
  by code_simp

lemma lowerChar_not_K: "lowerChar c \<noteq> CHR ''K''"
  by (simp add: lowerChar_def)

lemma toLowerCase_not_citeKey: "toLowerCase g \<noteq> ''citeKey''"
proof
  assume "toLowerCase g = ''citeKey''"
  then have "CHR ''K'' \<in> lowerChar ` set g"
    by (metis list.set_intros(1,2) list.set_map toLowerCase_def)
  then obtain x where "lowerChar x = CHR ''K''" by auto
  then show False using lowerChar_not_K by simp
qed

lemma setProp_keys: "fst ` set (setProp ob k v) \<subseteq> insert k (fst ` set ob)"
  by (simp add: setProp_def dom_update subset_insertI)

lemma fieldLoop_citeKey:
  "fieldLoop s flds = Some (Inr flds') \<Longrightarrow> ''citeKey'' \<notin> fst ` set flds \<Longrightarrow> ''citeKey'' \<notin> fst ` set flds'"
proof (induction s flds rule: fieldLoop.induct)
  case (1 s flds)
  show ?case
  proof (cases "exec fieldRegex s")
    case None
    with "1.prems" show ?thesis by (simp add: fieldLoop.simps [of s flds])
  next
    case (Some y)
    from exec_fieldRegex [OF Some] obtain g1 g2 where
      g: "length (fst y) < length s" "group (snd y) 1 = Some g1" "group (snd y) 2 = Some g2"
      by blast
    from "1.prems"(1) Some g
    have r: "fieldLoop (fst y) (setProp flds (toLowerCase g1) (trim g2)) = Some (Inr flds')"
      by (simp add: fieldLoop.simps [of s flds])
    have "''citeKey'' \<notin> fst ` set (setProp flds (toLowerCase g1) (trim g2))"
      using setProp_keys [of flds "toLowerCase g1" "trim g2"] "1.prems"(2)
        toLowerCase_not_citeKey [of g1] by auto
    from "1.IH" [OF Some g r this] show ?thesis .
  qed
qed

lemma map_of_spread: "k \<notin> fst ` set flds \<Longrightarrow> map_of (spread ob flds) k = map_of ob k"
  unfolding spread_def
  by (induction flds arbitrary: ob) (auto simp: update_conv')

lemma blockEntry_SomeD:
  "blockEntry b = Some e \<Longrightarrow>
     \<exists>g1 g2 g3 flds. group b 1 = Some g1 \<and> group b 2 = Some g2 \<and> group b 3 = Some g3 \<and>
       parseFields (trim g3) = Some (Inr flds) \<and>
       e = spread [(''type'', toLowerCase g1), (''citeKey'', trim g2)] flds"
  by (auto simp: blockEntry_def tryBlock_def split: option.splits sum.splits if_splits list.splits)

lemma blockEntry_citeKey: "blockEntry b = Some e \<Longrightarrow> getProp e ''citeKey'' = blockKey b"
proof -
  assume "blockEntry b = Some e"
  from blockEntry_SomeD [OF this] obtain g1 g2 g3 flds where
    g: "group b 2 = Some g2" "parseFields (trim g3) = Some (Inr flds)"
    "e = spread [(''type'', toLowerCase g1), (''citeKey'', trim g2)] flds" by blast
  from g(2) have "''citeKey'' \<notin> fst ` set flds"
    using fieldLoop_citeKey [of "trim g3" "[]" flds] by (simp add: parseFields_def)
  from map_of_spread [OF this] g(1,3) show ?thesis
    by (simp add: getProp_def blockKey_def)
qed

lemma map_the_cong:
  "list_all (\<lambda>b. f b \<noteq> None) bs \<Longrightarrow> (\<And>b e. f b = Some e \<Longrightarrow> g e = h b) \<Longrightarrow>
     map g (map the (map f bs)) = map h bs"
  by (induction bs) auto

text \<open>
  Claim C3, amended. For every input text the keys of the held entries are the keys of the
  blocks of accepted type, in their order and with their repetitions: every such block is
  pushed as an entry of its own, and a later block never replaces an earlier one with the
  same key.
\<close>

theorem parse_keeps_duplicate_keys:
  "\<exists>es. parse p bibtex = Some (es, \<lparr>entries = es, errors = []\<rparr>) \<and>
        map (\<lambda>e. getProp e ''citeKey'') es = map blockKey (filter acceptedBlock (blocks bibtex))"
proof -
  let ?bs = "filter acceptedBlock (blocks bibtex)"
  from parse_returns [of p bibtex] have
    1: "parse p bibtex = Some (map the (map blockEntry ?bs), \<lparr>entries = map the (map blockEntry ?bs), errors = []\<rparr>)"
    and 2: "list_all (\<lambda>b. blockEntry b \<noteq> None) ?bs" by blast+
  have "map (\<lambda>e. getProp e ''citeKey'') (map the (map blockEntry ?bs)) = map blockKey ?bs"
    using 2 by (rule map_the_cong) (simp add: blockEntry_citeKey)
  with 1 show ?thesis by blast
qed

subsection \<open>Sorting by year\<close>










subsection \<open>Filtering by type\<close>

lemma filterByType_cases:
  "fst (filterByType p ''all'') = Inr (entries p)"
  "fst (filterByType p ''journal'') = Inr (filter (\<lambda>e. getProp e ''type'' = Some ''article'') (entries p))"
  "fst (filterByType p ''conference'') =
     Inr (filter (\<lambda>e. getProp e ''type'' = Some ''inproceedings'' \<or> getProp e ''type'' = Some ''conference'') (entries p))"
  "fst (filterByType p ''preprint'') =
     Inr (filter (\<lambda>e. getProp e ''type'' = Some ''misc'' \<or> getProp e ''type'' = Some ''unpublished'') (entries p))"
  "type \<notin> set [''all'', ''journal'', ''conference'', ''preprint''] \<Longrightarrow> type \<notin> set objectPrototypeKeys \<Longrightarrow>
     fst (filterByType p type) = Inr (filter (\<lambda>e. getProp e ''type'' = Some type) (entries p))"
  by (auto simp: filterByType_def typeMap_def includes_arr_def objectPrototypeKeys_def
      split: option.splits intro!: filter_cong)

text \<open>
  Claim C4. The aliases and every other string select as the claim says (the lemma above),
  except for the names of the properties inherited from \<open>Object.prototype\<close>: there the call
  throws on a list that is not empty, where the claim has it return the entries of that type.
\<close>

theorem filterByType_inherited_key_throws:
  "filterByType \<lparr>entries = [[(''type'', ''article''), (''citeKey'', ''k'')]], errors = []\<rparr> ''constructor'' =
     (Inl TypeError, \<lparr>entries = [[(''type'', ''article''), (''citeKey'', ''k'')]], errors = []\<rparr>)"
  by code_simp

lemma subseq_filter: "subseq (filter P xs) xs"
  by (induction xs) auto

text \<open>
  Claim C10. For every argument \<open>filterByType\<close> leaves the parser as it was, and the entries
  it returns are entries of the held list in their order there. It returns unless the argument
  names an inherited property and the list is not empty.
\<close>

theorem filterByType_frame:
  "snd (filterByType p type) = p \<and>
   ((\<exists>res. fst (filterByType p type) = Inr res \<and> subseq res (entries p)) \<or>
    (type \<in> set objectPrototypeKeys \<and> entries p \<noteq> [] \<and> fst (filterByType p type) = Inl TypeError))"
  by (auto simp: filterByType_def typeMap_def subseq_filter split: typeMapValue.splits if_splits)

theorem filterByType_frame_witness:
  "filterByType \<lparr>entries = [[(''type'', ''article''), (''citeKey'', ''a'')],
        [(''type'', ''misc''), (''citeKey'', ''b'')], [(''type'', ''article''), (''citeKey'', ''c'')]],
      errors = []\<rparr> ''journal'' =
     (Inr [[(''type'', ''article''), (''citeKey'', ''a'')], [(''type'', ''article''), (''citeKey'', ''c'')]],
      \<lparr>entries = [[(''type'', ''article''), (''citeKey'', ''a'')],
        [(''type'', ''misc''), (''citeKey'', ''b'')], [(''type'', ''article''), (''citeKey'', ''c'')]],
      errors = []\<rparr>) \<and>
   subseq [[(''type'', ''article''), (''citeKey'', ''a'')], [(''type'', ''article''), (''citeKey'', ''c'')]]
     (entries \<lparr>entries = [[(''type'', ''article''), (''citeKey'', ''a'')],
        [(''type'', ''misc''), (''citeKey'', ''b'')], [(''type'', ''article''), (''citeKey'', ''c'')]],
      errors = []\<rparr>)"
proof -
  let ?p = "\<lparr>entries = [[(''type'', ''article''), (''citeKey'', ''a'')],
        [(''type'', ''misc''), (''citeKey'', ''b'')], [(''type'', ''article''), (''citeKey'', ''c'')]],
      errors = []\<rparr>"
  have v: "filterByType ?p ''journal'' =
     (Inr [[(''type'', ''article''), (''citeKey'', ''a'')], [(''type'', ''article''), (''citeKey'', ''c'')]], ?p)"
    by code_simp
  from filterByType_frame [of ?p "''journal''"] v show ?thesis by simp
qed

subsection \<open>The author list\<close>





lemma formatAuthorsWithLinks_scenario_plain:
  "formatAuthorsWithLinks None ''A and B and C''
      \<lparr>co_first_authors = Some [''A''], corresponding_authors = Some [''C'']\<rparr> =
     ''A<sup>*</sup>, B, C<sup>'' @ envelope @ ''</sup>''"
  by code_simp

subsection \<open>The citation text\<close>










subsection \<open>Comment stripping\<close>

lemma star_first_aux:
  assumes f: "\<And>t c. f (t, c) = (case t of [] \<Rightarrow> [] | d # ds \<Rightarrow> if q d then [(ds, c)] else [])"
  shows "star f True (t, c) \<noteq> [] \<and> hd (star f True (t, c)) = (dropWhile q t, c)"
proof (induction t)
  case Nil
  show ?case by (simp add: star.simps [of f True "([], c)"] f)
next
  case (Cons d ds)
  show ?case
  proof (cases "q d")
    case True
    then have "star f True (d # ds, c) = star f True (ds, c) @ [(d # ds, c)]"
      by (simp add: star.simps [of f True "(d # ds, c)"] f)
    with Cons True show ?thesis by simp
  next
    case False
    then show ?thesis by (simp add: star.simps [of f True "(d # ds, c)"] f)
  qed
qed

lemma star_class_first:
  "star (matches (Cls q)) True (t, c) \<noteq> [] \<and>
   hd (star (matches (Cls q)) True (t, c)) = (dropWhile q t, c)"
  by (rule star_first_aux) (simp split: list.splits)

lemma matches_EndLine_stop:
  "t = [] \<or> isLineTerminator (hd t) \<Longrightarrow> matches EndLine (t, c) = [(t, c)]"
  by (cases t) auto

lemma matches_EndLine_dropWhile:
  "matches EndLine (dropWhile isDot cs, c) = [(dropWhile isDot cs, c)]"
proof (rule matches_EndLine_stop)
  show "dropWhile isDot cs = [] \<or> isLineTerminator (hd (dropWhile isDot cs))"
    using hd_dropWhile [of isDot cs] by (auto simp: isDot_def)
qed

lemma matches_commentRegex_percent:
  "\<exists>ys. matches commentRegex (CHR ''%'' # cs, []) = (dropWhile isDot cs, []) # ys"
proof -
  from star_class_first [of isDot cs "[]"] obtain zs where
    "star (matches (Cls isDot)) True (cs, []) = (dropWhile isDot cs, []) # zs"
    by (cases "star (matches (Cls isDot)) True (cs, [])") auto
  moreover have "matches commentRegex (CHR ''%'' # cs, []) =
      concat (map (matches EndLine) (star (matches (Cls isDot)) True (cs, [])))"
    by (simp add: commentRegex_def del: matches.simps(11))
  ultimately have "matches commentRegex (CHR ''%'' # cs, []) =
      (dropWhile isDot cs, []) # concat (map (matches EndLine) zs)"
    by (simp only: list.map concat.simps matches_EndLine_dropWhile append_Cons append_Nil)
  then show ?thesis by blast
qed

lemma matches_commentRegex_other:
  "matches commentRegex ([], []) = []" "c \<noteq> CHR ''%'' \<Longrightarrow> matches commentRegex (c # cs, []) = []"
  by (simp_all add: commentRegex_def)

lemma stripComments_simps:
  "stripComments [] = []"
  "stripComments (c # cs) =
     (if c = CHR ''%'' then stripComments (dropWhile isDot cs) else c # stripComments cs)"
proof -
  show "stripComments [] = []"
    by (simp add: stripComments_def replaceAll.simps [of commentRegex "[]" "[]"] matches_commentRegex_other)
  show "stripComments (c # cs) =
     (if c = CHR ''%'' then stripComments (dropWhile isDot cs) else c # stripComments cs)"
  proof (cases "c = CHR ''%''")
    case True
    from matches_commentRegex_percent [of cs] obtain ys where
      "matches commentRegex (CHR ''%'' # cs, []) = (dropWhile isDot cs, []) # ys" by blast
    moreover have "length (dropWhile isDot cs) < length (CHR ''%'' # cs)"
      using length_dropWhile_le [of isDot cs] by simp
    ultimately show ?thesis using True
      by (simp add: stripComments_def replaceAll.simps [of commentRegex "[]" "CHR ''%'' # cs"])
  next
    case False
    then show ?thesis
      by (simp add: stripComments_def replaceAll.simps [of commentRegex "[]" "c # cs"]
          matches_commentRegex_other)
  qed
qed

lemma spec_in_comment: "stripComments_spec True cs = stripComments_spec False (dropWhile isDot cs)"
  by (induction cs) (auto simp: isDot_def)

lemma percent_not_lt: "\<not> isLineTerminator CHR ''%''"
  by (simp add: isLineTerminator_def)

lemma stripComments_refines: "stripComments s = stripComments_spec False s"
proof (induction s rule: length_induct)
  case (1 s)
  show ?case
  proof (cases s)
    case Nil
    then show ?thesis by (simp add: stripComments_simps)
  next
    case (Cons c cs)
    show ?thesis
    proof (cases "c = CHR ''%''")
      case True
      have "length (dropWhile isDot cs) < length s"
        using Cons length_dropWhile_le [of isDot cs] by simp
      with 1 have "stripComments (dropWhile isDot cs) = stripComments_spec False (dropWhile isDot cs)"
        by blast
      with True Cons show ?thesis
        by (simp add: stripComments_simps spec_in_comment percent_not_lt)
    next
      case False
      from 1 Cons have "stripComments cs = stripComments_spec False cs" by simp
      with False Cons show ?thesis by (simp add: stripComments_simps)
    qed
  qed
qed


lemma spec_subset: "set (stripComments_spec b s) \<subseteq> set s"
  by (induction s arbitrary: b) auto





text \<open>
  An example: the value of \<open>note\<close> is cut at its \<open>%\<close> together with the closing brace, and
  the field scanner, which does not cross a line end, then finds no \<open>note\<close> field.
\<close>

lemma stripComments_in_value:
  "stripComments (''@misc{k, note={50% off},'' @ NL @ ''  title={T}}'') =
     ''@misc{k, note={50'' @ NL @ ''  title={T}}'' \<and>
   parse p (''@misc{k, note={50% off},'' @ NL @ ''  title={T}}'') =
     Some ([[(''type'', ''misc''), (''citeKey'', ''k''), (''title'', ''T'')]],
           \<lparr>entries = [[(''type'', ''misc''), (''citeKey'', ''k''), (''title'', ''T'')]], errors = []\<rparr>)"
  by code_simp

text \<open>A text without \<open>@\<close> has no block.\<close>

lemma exec_entryRegex_no_at: "CHR ''@'' \<notin> set s \<Longrightarrow> exec entryRegex s = None"
  by (induction s) (auto simp: entryRegex_def)

lemma blocks_no_at: "CHR ''@'' \<notin> set bibtex \<Longrightarrow> blocks bibtex = []"
proof -
  assume "CHR ''@'' \<notin> set bibtex"
  then have "CHR ''@'' \<notin> set (stripComments bibtex)"
    using spec_subset [of False bibtex] by (auto simp: stripComments_refines)
  then show ?thesis
    by (simp add: blocks_def matchAll.simps [of entryRegex "stripComments bibtex"] exec_entryRegex_no_at)
qed

end
